theory Spec2Isabelle
  imports Main "HOL-Library.Word"
begin

unbundle bit_operations_syntax

section \<open>Bytes, byte streams and encoding/binary\<close>

type_synonym byte = "8 word"

text \<open>
  The errors an \<^verbatim>\<open>io.Reader\<close> hands to \<^verbatim>\<open>io.ReadFull\<close>: \<^verbatim>\<open>io.EOF\<close>,
  \<^verbatim>\<open>io.ErrUnexpectedEOF\<close>, and any other I/O failure.
\<close>

datatype io_error = EOF | ErrUnexpectedEOF | ErrIO

text \<open>
  An input byte stream (standard input, or the standard output of the ffmpeg child):
  the bytes still to come, and how the stream ends once they are used up: with
  end-of-file, or (\<open>broken\<close>) with an I/O failure.
\<close>

record reader =
  pending :: "byte list"
  broken :: bool

text \<open>
  \<^verbatim>\<open>io.ReadFull(r, buf)\<close> with \<open>len(buf) = n\<close>: all \<open>n\<close> bytes, or \<^verbatim>\<open>io.EOF\<close> when
  no byte could be read, \<^verbatim>\<open>io.ErrUnexpectedEOF\<close> when some but not all could, or the
  stream's own failure. A request for zero bytes succeeds without touching the stream.
\<close>

definition ReadFull :: "reader \<Rightarrow> nat \<Rightarrow> io_error + (byte list \<times> reader)" where
  "ReadFull r n =
     (if n \<le> length (pending r)
      then Inr (take n (pending r), r\<lparr>pending := drop n (pending r)\<rparr>)
      else if broken r then Inl ErrIO
      else if pending r = [] then Inl EOF
      else Inl ErrUnexpectedEOF)"

text \<open>\<^verbatim>\<open>binary.LittleEndian\<close>: \<^verbatim>\<open>Uint16\<close>, \<^verbatim>\<open>PutUint16\<close>, \<^verbatim>\<open>PutUint32\<close>.\<close>

fun Uint16 :: "byte list \<Rightarrow> 16 word" where
  "Uint16 (b0 # b1 # bs) = (ucast b0) OR (push_bit 8 (ucast b1))"
| "Uint16 bs = 0"

definition PutUint16 :: "16 word \<Rightarrow> byte list" where
  "PutUint16 v = [ucast v, ucast (drop_bit 8 v)]"

definition PutUint32 :: "32 word \<Rightarrow> byte list" where
  "PutUint32 v = [ucast v, ucast (drop_bit 8 v), ucast (drop_bit 16 v), ucast (drop_bit 24 v)]"

text \<open>\<^verbatim>\<open>binary.Read(r, binary.LittleEndian, &opuslen)\<close> for \<open>opuslen\<close> a \<^verbatim>\<open>uint16\<close>.\<close>

definition Read_uint16 :: "reader \<Rightarrow> io_error + (16 word \<times> reader)" where
  "Read_uint16 r =
     (case ReadFull r 2 of
        Inl e \<Rightarrow> Inl e
      | Inr (bs, r') \<Rightarrow> Inr (Uint16 bs, r'))"

section \<open>The decode reader\<close>

text \<open>
  What a run of \<^verbatim>\<open>decodeReader\<close> does that the other stages and the operator can
  see: the payloads it sends on \<^verbatim>\<open>DecodeInputChan\<close> in order, the messages it prints,
  and the size in bytes of each \<^verbatim>\<open>binary.Read\<close> it issues on standard input, in order.
\<close>

record decode_run =
  sent :: "byte list list"
  logged :: "string list"
  reads :: "nat list"

definition read_failure :: "io_error \<Rightarrow> string list" where
  "read_failure e =
     (if e = EOF \<or> e = ErrUnexpectedEOF then [] else [''error reading from stdin:''])"

function decodeReader :: "reader \<Rightarrow> decode_run" where
  "decodeReader rbuf =
     (case Read_uint16 rbuf of
        Inl e \<Rightarrow> \<lparr>sent = [], logged = read_failure e, reads = [2]\<rparr>
      | Inr (opuslen, rbuf') \<Rightarrow>
          (case ReadFull rbuf' (unat opuslen) of
             Inl e \<Rightarrow> \<lparr>sent = [], logged = read_failure e, reads = [2, unat opuslen]\<rparr>
           | Inr (InBuf, rbuf'') \<Rightarrow>
               (let rest = decodeReader rbuf''
                in \<lparr>sent = InBuf # sent rest, logged = logged rest,
                    reads = 2 # unat opuslen # reads rest\<rparr>)))"
  by pat_completeness auto
termination
proof (relation "measure (\<lambda>r. length (pending r))")
  show "wf (measure (\<lambda>r. length (pending r)))" by simp
next
  fix rbuf :: reader and x opuslen rbuf' y InBuf rbuf''
  assume a: "Read_uint16 rbuf = Inr x" "(opuslen, rbuf') = x"
    and b: "ReadFull rbuf' (unat opuslen) = Inr y" "(InBuf, rbuf'') = y"
  from a have "length (pending rbuf') < length (pending rbuf)"
    by (auto simp: Read_uint16_def ReadFull_def split: if_splits)
  moreover from b have "length (pending rbuf'') \<le> length (pending rbuf')"
    by (auto simp: ReadFull_def split: if_splits)
  ultimately show "(rbuf'', rbuf) \<in> measure (\<lambda>r. length (pending r))" by simp
qed

declare decodeReader.simps [simp del]

section \<open>The encode writer\<close>

text \<open>
  Standard output as the writer sees it: the bytes its write calls have handed over so
  far, in call order, and the number of further write calls that succeed before one
  reports a failure (\<open>None\<close>: the output never fails). A failure is sticky, as the
  buffered writer's is.
\<close>

record writer =
  out :: "byte list"
  budget :: "nat option"

definition Write :: "writer \<Rightarrow> byte list \<Rightarrow> writer option" where
  "Write w p =
     (case budget w of
        None \<Rightarrow> Some (w\<lparr>out := out w @ p\<rparr>)
      | Some 0 \<Rightarrow> None
      | Some (Suc k) \<Rightarrow> Some \<lparr>out = out w @ p, budget = Some k\<rparr>)"

text \<open>A write whose result the caller drops: \<^verbatim>\<open>fmt.Print\<close>, \<^verbatim>\<open>wbuf.Write(json)\<close>.\<close>

definition Write_unchecked :: "writer \<Rightarrow> byte list \<Rightarrow> writer" where
  "Write_unchecked w p = (case Write w p of None \<Rightarrow> w | Some w' \<Rightarrow> w')"

definition FormatVersion :: nat where
  "FormatVersion = 1"

text \<open>\<^verbatim>\<open>fmt.Sprintf("%d", n)\<close> for a number that is not negative.\<close>

fun Sprintf_d :: "nat \<Rightarrow> string" where
  "Sprintf_d n =
     (if n < 10 then [char_of (48 + n)]
      else Sprintf_d (n div 10) @ [char_of (48 + n mod 10)])"

definition MagicBytes :: string where
  "MagicBytes = ''DCA'' @ Sprintf_d FormatVersion"

definition bytes_of :: "string \<Rightarrow> byte list" where
  "bytes_of s = map of_char s"

text \<open>
  The frame loop of \<^verbatim>\<open>encodeWriter\<close>, over the frames the encoder sends on
  \<^verbatim>\<open>EncodeOutputChan\<close> before closing it: \<open>opuslen = int16(len(opus))\<close> written
  little-endian, then the frame's bytes.
\<close>

fun writeFrames :: "writer \<Rightarrow> byte list list \<Rightarrow> writer \<times> string list" where
  "writeFrames wbuf [] = (wbuf, [])"
| "writeFrames wbuf (opus # chan) =
     (let opuslen = (word_of_nat (length opus) :: 16 word)
      in case Write wbuf (PutUint16 opuslen) of
           None \<Rightarrow> (wbuf, [''error writing output: ''])
         | Some wbuf' \<Rightarrow>
             (case Write wbuf' opus of
                None \<Rightarrow> (wbuf', [''error writing output: ''])
              | Some wbuf'' \<Rightarrow> writeFrames wbuf'' chan))"

text \<open>
  \<^verbatim>\<open>encodeWriter\<close>. \<open>marshalled\<close> is what \<^verbatim>\<open>json.Marshal(Metadata)\<close> returns: the
  error, or the JSON bytes. The result is the output and the messages printed.
\<close>

definition encodeWriter ::
  "bool \<Rightarrow> string + byte list \<Rightarrow> writer \<Rightarrow> byte list list \<Rightarrow> writer \<times> string list" where
  "encodeWriter RawOutput marshalled stdout chan =
     (if RawOutput = False then
        (let stdout1 = Write_unchecked stdout (bytes_of MagicBytes)
         in case marshalled of
              Inl err \<Rightarrow> (stdout1, [''Failed to encode the Metadata JSON:''])
            | Inr json \<Rightarrow>
                (let jsonlen = (word_of_nat (length json) :: 32 word)
                 in case Write stdout1 (PutUint32 jsonlen) of
                      None \<Rightarrow> (stdout1, [''error writing output: ''])
                    | Some wbuf \<Rightarrow> writeFrames (Write_unchecked wbuf json) chan))
      else writeFrames stdout chan)"

section \<open>Encoder configuration\<close>

text \<open>The bitrate handed to \<^verbatim>\<open>SetBitrate\<close>, from the \<^verbatim>\<open>-ab\<close> flag in kb/s.\<close>

definition configured_bitrate :: "int \<Rightarrow> int" where
  "configured_bitrate Bitrate =
     (let Bitrate' = (if Bitrate < 1 \<or> Bitrate > 512 then 64 else Bitrate)
      in Bitrate' * 1000)"

datatype application = Voip | Audio | RestrictedLowDelay

text \<open>The profile handed to \<^verbatim>\<open>SetApplication\<close>, from the \<^verbatim>\<open>-aa\<close> flag.\<close>

definition configured_application :: "string \<Rightarrow> application" where
  "configured_application Application =
     (if Application = ''voip'' then Voip
      else if Application = ''audio'' then Audio
      else if Application = ''lowdelay'' then RestrictedLowDelay
      else Audio)"

section \<open>The container format as the specification words it\<close>

text \<open>
  One frame record: the frame's length as a 16-bit little-endian integer, then the
  frame's bytes.
\<close>

definition frame_record :: "byte list \<Rightarrow> byte list" where
  "frame_record opus = PutUint16 (word_of_nat (length opus)) @ opus"

text \<open>
  The reads a parser of bare frame records issues for the given frames: two bytes for
  the length, then the payload, for each frame in order.
\<close>

definition frame_reads :: "byte list list \<Rightarrow> nat list" where
  "frame_reads frames = concat (map (\<lambda>opus. [2, length opus]) frames)"

section \<open>Little-endian integers and single reads\<close>

lemma Uint16_PutUint16: "Uint16 (PutUint16 v @ bs) = v"
  apply (simp add: PutUint16_def)
  apply (rule bit_word_eqI)
  apply (auto simp add: bit_simps)
  done

lemma unat_len16:
  "length (opus :: byte list) \<le> 65535 \<Longrightarrow>
   unat (word_of_nat (length opus) :: 16 word) = length opus"
  by (simp add: unsigned_of_nat take_bit_nat_eq_self)

lemma Read_uint16_PutUint16:
  "Read_uint16 \<lparr>pending = PutUint16 v @ bs, broken = b\<rparr> =
   Inr (v, \<lparr>pending = bs, broken = b\<rparr>)"
proof -
  have "ReadFull \<lparr>pending = PutUint16 v @ bs, broken = b\<rparr> 2 =
        Inr (PutUint16 v, \<lparr>pending = bs, broken = b\<rparr>)"
    by (simp add: ReadFull_def PutUint16_def)
  then show ?thesis
    using Uint16_PutUint16 [of v "[]"] by (simp add: Read_uint16_def)
qed

lemma Read_uint16_short:
  "length bs < 2 \<Longrightarrow>
   Read_uint16 \<lparr>pending = bs, broken = False\<rparr> =
   Inl (if bs = [] then EOF else ErrUnexpectedEOF)"
  by (simp add: Read_uint16_def ReadFull_def)

lemma ReadFull_append:
  "ReadFull \<lparr>pending = p @ bs, broken = b\<rparr> (length p) =
   Inr (p, \<lparr>pending = bs, broken = b\<rparr>)"
  by (simp add: ReadFull_def)

lemma ReadFull_short:
  "length p < n \<Longrightarrow>
   ReadFull \<lparr>pending = p, broken = False\<rparr> n =
   Inl (if p = [] then EOF else ErrUnexpectedEOF)"
  by (simp add: ReadFull_def)

section \<open>The decode reader on frame records\<close>

lemma decodeReader_record:
  assumes "length opus \<le> 65535"
  shows "decodeReader \<lparr>pending = frame_record opus @ bs, broken = b\<rparr> =
     (let rest = decodeReader \<lparr>pending = bs, broken = b\<rparr>
      in \<lparr>sent = opus # sent rest, logged = logged rest,
          reads = 2 # length opus # reads rest\<rparr>)"
proof -
  let ?v = "word_of_nat (length opus) :: 16 word"
  have u: "unat ?v = length opus"
    using assms by (rule unat_len16)
  have hd: "Read_uint16 \<lparr>pending = PutUint16 ?v @ (opus @ bs), broken = b\<rparr> =
            Inr (?v, \<lparr>pending = opus @ bs, broken = b\<rparr>)"
    by (rule Read_uint16_PutUint16)
  have body: "ReadFull \<lparr>pending = opus @ bs, broken = b\<rparr> (unat ?v) =
              Inr (opus, \<lparr>pending = bs, broken = b\<rparr>)"
    unfolding u by (rule ReadFull_append)
  show ?thesis
    apply (subst decodeReader.simps)
    apply (simp only: frame_record_def append_assoc hd body [unfolded u] sum.case prod.case u)
    done
qed

lemma decodeReader_records:
  assumes "\<forall>opus\<in>set frames. length opus \<le> 65535"
  shows "decodeReader \<lparr>pending = concat (map frame_record frames) @ bs, broken = b\<rparr> =
     (let rest = decodeReader \<lparr>pending = bs, broken = b\<rparr>
      in \<lparr>sent = frames @ sent rest, logged = logged rest,
          reads = frame_reads frames @ reads rest\<rparr>)"
  using assms
proof (induction frames)
  case Nil
  show ?case by (simp add: frame_reads_def Let_def)
next
  case (Cons opus frames)
  then have len: "length opus \<le> 65535"
    and rest: "\<forall>opus\<in>set frames. length opus \<le> 65535" by simp_all
  show ?case
    using decodeReader_record [OF len, of "concat (map frame_record frames) @ bs" b]
      Cons.IH [OF rest]
    by (simp add: Let_def frame_reads_def)
qed

lemma decodeReader_prefix_eof:
  "length bs < 2 \<Longrightarrow>
   decodeReader \<lparr>pending = bs, broken = False\<rparr> = \<lparr>sent = [], logged = [], reads = [2]\<rparr>"
  by (subst decodeReader.simps) (simp add: Read_uint16_short read_failure_def)

lemma decodeReader_payload_eof:
  assumes "length p < unat n"
  shows "decodeReader \<lparr>pending = PutUint16 n @ p, broken = False\<rparr> =
         \<lparr>sent = [], logged = [], reads = [2, unat n]\<rparr>"
  apply (subst decodeReader.simps)
  apply (simp add: Read_uint16_PutUint16 ReadFull_short [OF assms] read_failure_def)
  done

lemma ReadFull_keeps_broken:
  "ReadFull r n = Inr (bs, r') \<Longrightarrow> broken r' = broken r"
  by (auto simp: ReadFull_def split: if_splits)

lemma ReadFull_eof_error:
  "\<not> broken r \<Longrightarrow> ReadFull r n = Inl e \<Longrightarrow> read_failure e = []"
  by (auto simp: ReadFull_def read_failure_def split: if_splits)

lemma Read_uint16_keeps_broken:
  "Read_uint16 r = Inr (v, r') \<Longrightarrow> broken r' = broken r"
  by (auto simp: Read_uint16_def ReadFull_keeps_broken split: sum.splits)

lemma Read_uint16_eof_error:
  "\<not> broken r \<Longrightarrow> Read_uint16 r = Inl e \<Longrightarrow> read_failure e = []"
  by (auto simp: Read_uint16_def ReadFull_eof_error split: sum.splits)

lemma decodeReader_eof_silent: "\<not> broken r \<Longrightarrow> logged (decodeReader r) = []"
proof (induction r rule: decodeReader.induct)
  case (1 rbuf)
  show ?case
  proof (cases "Read_uint16 rbuf")
    case (Inl e)
    then show ?thesis
      using Read_uint16_eof_error [OF "1.prems" Inl]
      by (subst decodeReader.simps) simp
  next
    case (Inr x)
    obtain opuslen rbuf' where x: "x = (opuslen, rbuf')" by (cases x)
    have b': "\<not> broken rbuf'"
      using Read_uint16_keeps_broken [of rbuf opuslen rbuf'] Inr x "1.prems" by simp
    show ?thesis
    proof (cases "ReadFull rbuf' (unat opuslen)")
      case (Inl e)
      then show ?thesis
        using ReadFull_eof_error [OF b' Inl] Inr x
        by (subst decodeReader.simps) simp
    next
      case body: (Inr y)
      obtain InBuf rbuf'' where y: "y = (InBuf, rbuf'')" by (cases y)
      have b'': "\<not> broken rbuf''"
        using ReadFull_keeps_broken [of rbuf' "unat opuslen" InBuf rbuf''] body y b' by simp
      have "logged (decodeReader rbuf'') = []"
        using "1.IH" [OF Inr x [symmetric] body y [symmetric] b''] .
      then show ?thesis
        using Inr x body y
        by (subst decodeReader.simps) (simp add: Let_def)
    qed
  qed
qed


section \<open>The encode writer on an output that never fails\<close>

lemma writeFrames_unbounded:
  "writeFrames \<lparr>out = pre, budget = None\<rparr> frames =
     (\<lparr>out = pre @ concat (map frame_record frames), budget = None\<rparr>, [])"
  by (induction frames arbitrary: pre) (simp_all add: Write_def frame_record_def Let_def)

lemma MagicBytes_DCA1: "bytes_of MagicBytes = [68, 67, 65, 49]"
  by code_simp

lemma encodeWriter_raw_unbounded:
  "encodeWriter True marshalled \<lparr>out = [], budget = None\<rparr> frames =
     (\<lparr>out = concat (map frame_record frames), budget = None\<rparr>, [])"
  by (simp add: encodeWriter_def writeFrames_unbounded)

lemma encodeWriter_container_unbounded:
  "encodeWriter False (Inr json) \<lparr>out = [], budget = None\<rparr> frames =
     (\<lparr>out = [68, 67, 65, 49] @ PutUint32 (word_of_nat (length json)) @ json
              @ concat (map frame_record frames),
        budget = None\<rparr>, [])"
  by (simp add: encodeWriter_def Let_def Write_unchecked_def Write_def MagicBytes_DCA1
      writeFrames_unbounded)

lemma container_strip_header:
  "drop (8 + length json)
     (out (fst (encodeWriter False (Inr json) \<lparr>out = [], budget = None\<rparr> frames)))
   = concat (map frame_record frames)"
proof -
  let ?h = "[68, 67, 65, 49] @ PutUint32 (word_of_nat (length json)) @ json"
  let ?r = "concat (map frame_record frames)"
  have e: "out (fst (encodeWriter False (Inr json) \<lparr>out = [], budget = None\<rparr> frames))
           = ?h @ ?r"
    by (simp add: encodeWriter_container_unbounded)
  have l: "8 + length json = length ?h"
    by (simp add: PutUint32_def)
  show ?thesis
    unfolding e l by (metis append_eq_conv_conj)
qed

section \<open>Claims on the container format\<close>

text \<open>
  C1. Framing round trip: frames of at most 65535 bytes each, written by the encode
  writer in raw mode and read back by the decode reader, come out as the same payloads
  in the same order, with nothing printed by either side; the reader's reads are exactly
  a two-byte length and then the payload for each frame, and one last two-byte read that
  meets the end of the stream, so no read is spent on a magic marker; the frame count is
  kept. The same holds for a container written with its header once the header (magic,
  length field, JSON) is stripped.
\<close>

theorem raw_round_trip:
  assumes "\<forall>opus\<in>set frames. length opus \<le> 65535"
  shows "decodeReader
           \<lparr>pending = out (fst (encodeWriter True marshalled \<lparr>out = [], budget = None\<rparr> frames)),
            broken = False\<rparr>
         = \<lparr>sent = frames, logged = [], reads = frame_reads frames @ [2]\<rparr>
       \<and> snd (encodeWriter True marshalled \<lparr>out = [], budget = None\<rparr> frames) = []
       \<and> length (sent (decodeReader
           \<lparr>pending = out (fst (encodeWriter True marshalled \<lparr>out = [], budget = None\<rparr> frames)),
            broken = False\<rparr>)) = length frames
       \<and> sent (decodeReader
           \<lparr>pending = drop (8 + length json)
              (out (fst (encodeWriter False (Inr json) \<lparr>out = [], budget = None\<rparr> frames))),
            broken = False\<rparr>) = frames"
proof -
  have parse: "decodeReader \<lparr>pending = concat (map frame_record frames), broken = False\<rparr>
               = \<lparr>sent = frames, logged = [], reads = frame_reads frames @ [2]\<rparr>"
    using decodeReader_records [OF assms, of "[]" False] decodeReader_prefix_eof [of "[]"]
    by (simp add: Let_def)
  have strip: "drop (8 + length json)
      (out (fst (encodeWriter False (Inr json) \<lparr>out = [], budget = None\<rparr> frames)))
      = concat (map frame_record frames)"
    by (rule container_strip_header)
  show ?thesis
    unfolding strip by (simp add: encodeWriter_raw_unbounded parse)
qed

theorem raw_round_trip_witness:
  "decodeReader
     \<lparr>pending = out (fst (encodeWriter True (Inl [])
        \<lparr>out = [], budget = None\<rparr> [[1, 2, 3], [], [9]])),
      broken = False\<rparr>
   = \<lparr>sent = [[1, 2, 3], [], [9]], logged = [], reads = [2, 3, 2, 0, 2, 1, 2]\<rparr>"
  using raw_round_trip [of "[[1, 2, 3], [], [9]]" "Inl []" "[]"]
  by (simp add: frame_reads_def)

text \<open>
  C2, as the claim stands: end-of-stream inside a payload is reported as a malformed
  stream. The reader returns on it without printing anything, as it does on a clean end:
  a length of 5 followed by two bytes.
\<close>

theorem decodeReader_payload_eof_counterexample:
  "decodeReader \<lparr>pending = [5, 0, 1, 2], broken = False\<rparr>
     = \<lparr>sent = [], logged = [], reads = [2, 5]\<rparr>
   \<and> logged (decodeReader \<lparr>pending = [5, 0, 1, 2], broken = False\<rparr>)
     = logged (decodeReader \<lparr>pending = [], broken = False\<rparr>)"
  by code_simp

text \<open>
  C2, amended. On a stream that ends with end-of-file, after any number of whole frame
  records: when fewer than two bytes are left for the length, the reader returns with
  the frames read so far and prints nothing; when the length is read and fewer payload
  bytes than it announces are left, the reader returns in the same way, the cut frame
  is not sent and nothing is printed. No stream that ends with end-of-file makes the
  reader print. Only a read that fails otherwise is reported.
\<close>

theorem decodeReader_end_of_stream:
  assumes "\<forall>opus\<in>set frames. length opus \<le> 65535"
  shows "(length bs < 2 \<longrightarrow>
            decodeReader \<lparr>pending = concat (map frame_record frames) @ bs, broken = False\<rparr>
            = \<lparr>sent = frames, logged = [], reads = frame_reads frames @ [2]\<rparr>)
       \<and> (length p < unat n \<longrightarrow>
            decodeReader
              \<lparr>pending = concat (map frame_record frames) @ PutUint16 n @ p, broken = False\<rparr>
            = \<lparr>sent = frames, logged = [], reads = frame_reads frames @ [2, unat n]\<rparr>)
       \<and> (\<not> broken r \<longrightarrow> logged (decodeReader r) = [])
       \<and> (length p < unat n \<longrightarrow>
            decodeReader
              \<lparr>pending = concat (map frame_record frames) @ PutUint16 n @ p, broken = True\<rparr>
            = \<lparr>sent = frames, logged = [''error reading from stdin:''],
                reads = frame_reads frames @ [2, unat n]\<rparr>)"
proof -
  have tail_broken: "length p < unat n \<Longrightarrow>
      decodeReader \<lparr>pending = PutUint16 n @ p, broken = True\<rparr>
      = \<lparr>sent = [], logged = [''error reading from stdin:''], reads = [2, unat n]\<rparr>"
    by (subst decodeReader.simps)
      (simp add: Read_uint16_PutUint16 ReadFull_def read_failure_def)
  show ?thesis
    using decodeReader_records [OF assms, of bs False]
      decodeReader_records [OF assms, of "PutUint16 n @ p"]
      decodeReader_prefix_eof [of bs] decodeReader_payload_eof [of p n]
      decodeReader_eof_silent [of r] tail_broken
    by (simp add: Let_def)
qed

theorem decodeReader_end_of_stream_witness:
  "decodeReader \<lparr>pending = [2, 0, 7, 8, 1], broken = False\<rparr>
     = \<lparr>sent = [[7, 8]], logged = [], reads = [2, 2, 2]\<rparr>
   \<and> decodeReader \<lparr>pending = [2, 0, 7, 8, 5, 0, 1, 2], broken = False\<rparr>
     = \<lparr>sent = [[7, 8]], logged = [], reads = [2, 2, 2, 5]\<rparr>
   \<and> decodeReader \<lparr>pending = [2, 0, 7, 8, 5, 0, 1, 2], broken = True\<rparr>
     = \<lparr>sent = [[7, 8]], logged = [''error reading from stdin:''], reads = [2, 2, 2, 5]\<rparr>"
  using decodeReader_end_of_stream [of "[[7, 8]]" "[1]" "[1, 2]" 5 "\<lparr>pending = [], broken = False\<rparr>"]
  by (simp add: frame_record_def frame_reads_def PutUint16_def)



text \<open>
  C4. The frame record: in raw mode and in container mode alike, on a standard output
  that never fails, each frame the writer receives adds its length as two little-endian
  bytes and then its own bytes, records following one another with nothing between; for
  a frame of at most 65535 bytes the two bytes read back as the frame's length.
\<close>

theorem writeFrames_format:
  "writeFrames \<lparr>out = pre, budget = None\<rparr> frames =
     (\<lparr>out = pre @ concat (map (\<lambda>opus. PutUint16 (word_of_nat (length opus)) @ opus) frames),
        budget = None\<rparr>, [])
   \<and> out (fst (encodeWriter True marshalled \<lparr>out = [], budget = None\<rparr> frames)) =
       concat (map (\<lambda>opus. PutUint16 (word_of_nat (length opus)) @ opus) frames)
   \<and> drop (8 + length json)
       (out (fst (encodeWriter False (Inr json) \<lparr>out = [], budget = None\<rparr> frames))) =
       concat (map (\<lambda>opus. PutUint16 (word_of_nat (length opus)) @ opus) frames)
   \<and> length (PutUint16 (word_of_nat (length (opus :: byte list)))) = 2
   \<and> (length opus \<le> 65535 \<longrightarrow>
        unat (Uint16 (PutUint16 (word_of_nat (length opus)))) = length opus)"
proof -
  have rec: "frame_record = (\<lambda>opus. PutUint16 (word_of_nat (length opus)) @ opus)"
    by (rule ext) (simp add: frame_record_def)
  have field: "length opus \<le> 65535 \<longrightarrow>
        unat (Uint16 (PutUint16 (word_of_nat (length opus)))) = length opus"
    using Uint16_PutUint16 [of "word_of_nat (length opus)" "[]"] unat_len16 [of opus]
    by simp
  have two: "length (PutUint16 (word_of_nat (length opus))) = 2"
    by (simp add: PutUint16_def)
  have strip: "drop (8 + length json)
      (out (fst (encodeWriter False (Inr json) \<lparr>out = [], budget = None\<rparr> frames)))
      = concat (map frame_record frames)"
    by (rule container_strip_header)
  show ?thesis
    using field two strip
    by (simp add: writeFrames_unbounded encodeWriter_raw_unbounded rec)
qed

theorem writeFrames_format_witness:
  "writeFrames \<lparr>out = [], budget = None\<rparr> [[7, 8, 9], [], [5]] =
     (\<lparr>out = [3, 0, 7, 8, 9, 0, 0, 1, 0, 5], budget = None\<rparr>, [])
   \<and> unat (Uint16 (PutUint16 (word_of_nat (length [7, 8, 9 :: byte])))) = 3"
  using writeFrames_format [of "[]" "[[7, 8, 9], [], [5]]" "Inl []" "[]" "[7, 8, 9]"]
  by (simp add: PutUint16_def)

section \<open>Claims on the encoder's configuration\<close>

text \<open>
  C5. Bitrate clamping: the bitrate configured is the input times 1000 for an input
  from 1 to 512 kb/s and 64000 bits/s for every other input; so 0, 513 and -5 give the
  default and 1 and 512 are taken as they are.
\<close>

theorem bitrate_clamping:
  "configured_bitrate b = (if 1 \<le> b \<and> b \<le> 512 then b * 1000 else 64000)
   \<and> configured_bitrate 0 = 64000
   \<and> configured_bitrate 513 = 64000
   \<and> configured_bitrate (- 5) = 64000
   \<and> configured_bitrate 1 = 1000
   \<and> configured_bitrate 512 = 512000"
  by (auto simp add: configured_bitrate_def Let_def)

text \<open>
  C7. Application profile: \<open>voip\<close> selects the interactive-voice profile, \<open>lowdelay\<close>
  the restricted-low-delay profile, and \<open>audio\<close> and every other string the
  general-audio profile.
\<close>

theorem application_profile:
  "configured_application a =
     (if a = ''voip'' then Voip
      else if a = ''lowdelay'' then RestrictedLowDelay
      else Audio)
   \<and> configured_application ''voip'' = Voip
   \<and> configured_application ''lowdelay'' = RestrictedLowDelay
   \<and> configured_application ''audio'' = Audio
   \<and> configured_application ''music'' = Audio
   \<and> configured_application [] = Audio"
  by (simp add: configured_application_def)

end
